theory Spec2Isabelle
  imports Complex_Main
begin

section \<open>The dense matrix of matrix.cpp\<close>

text \<open>
  The class \<open>matrix\<close> holds its entries in one contiguous array \<open>data\<close>, its shape
  \<open>rows\<close>, \<open>cols\<close>, the permutation \<open>p\<close> filled by \<open>factorize\<close> and the flag
  \<open>factorized\<close>.

  The element type \<open>'a\<close> stands for the C++ \<open>double\<close>. The definitions use only the
  operations \<open>+\<close>, \<open>-\<close>, \<open>*\<close>, \<open>/\<close> and \<open>>\<close> of \<open>'a\<close> and assume nothing about them:
  a theorem stated for an arbitrary \<open>'a\<close> holds whatever the arithmetic does (rounding,
  overflow, infinities, NaN). A theorem that speaks of a largest value is stated for a
  total order, one that speaks of a difference or a sum for a field, that is for exact
  arithmetic. Concrete runs are evaluated on \<open>real\<close>, and only where no step divides by
  zero, or where the values after such a step do not matter.

  The counters of the source are \<open>unsigned int\<close> and \<open>int\<close>; the model counts in
  \<open>nat\<close>. A square matrix whose \<open>n * n\<close> entries fit in memory has \<open>n\<close> far below
  \<open>2^31\<close>, and the loops of \<open>transpose\<close> stop at the first counter value that is not
  below the bound, so no counter wraps around.
\<close>

record 'a matrix =
  data :: "'a list"
  rows :: nat
  cols :: nat
  p :: "nat list"
  factorized :: bool

text \<open>
  Modelled from the spec: the header \<open>matrix.hpp\<close> (the class declaration with its
  constructor and the accessors \<open>index\<close>, \<open>const_index\<close>, \<open>operator()\<close>, \<open>get_rows\<close>,
  \<open>get_cols\<close>, \<open>get_data\<close>) is not among the sources. The spec describes a container
  "offering element access by (row, column), row/column counts, and raw contiguous
  storage access". The storage is column-major, entry \<open>(ir, jc)\<close> at position
  \<open>ir + jc * rows\<close>: \<open>operator*\<close> of matrix.cpp hands \<open>get_data()\<close> to
  \<open>Eigen::Map<Eigen::MatrixXd>\<close>, whose layout is column-major.
\<close>

definition sub2ind :: "'a matrix \<Rightarrow> nat \<Rightarrow> nat \<Rightarrow> nat" where
  "sub2ind m ir jc = ir + jc * rows m"

text \<open>
  Modelled from the spec: the accessors \<open>index\<close> and \<open>const_index\<close> of the missing
  header, "element access by (row, column)", the first for reading and writing, the
  second for reading. \<open>index\<close> is the read; \<open>set_index\<close> is the write
  \<open>index(irow, jcol) = v\<close>.
\<close>

definition index :: "'a matrix \<Rightarrow> nat \<Rightarrow> nat \<Rightarrow> 'a" where
  "index m irow jcol = data m ! sub2ind m irow jcol"

definition set_index :: "'a matrix \<Rightarrow> nat \<Rightarrow> nat \<Rightarrow> 'a \<Rightarrow> 'a matrix" where
  "set_index m irow jcol v = m\<lparr>data := (data m)[sub2ind m irow jcol := v]\<rparr>"

text \<open>
  Modelled from the spec: the constructor \<open>matrix(rows, cols)\<close> of the missing header.
  The spec has the flag "\<open>false\<close> initially" and the permutation "sized but
  uninitialized": \<open>factorize\<close> resizes and overwrites it before any read, so the model
  starts it empty. The entries start at zero; \<open>transpose\<close> overwrites every one of them.
\<close>

definition new_matrix :: "nat \<Rightarrow> nat \<Rightarrow> ('a::zero) matrix" where
  "new_matrix r c = \<lparr>data = replicate (r * c) 0, rows = r, cols = c, p = [], factorized = False\<rparr>"

text \<open>The class invariant set up by the constructor: the storage has \<open>rows * cols\<close> entries.\<close>

definition wf_matrix :: "'a matrix \<Rightarrow> bool" where
  "wf_matrix m \<longleftrightarrow> length (data m) = rows m * cols m"

text \<open>
  The ways a call can end without returning: the \<open>assert\<close> of \<open>factorize\<close> aborts the
  program; an access through the raw pointer \<open>b\<close> beyond the storage of \<open>rhs\<close> is
  undefined behaviour. A division by zero is neither: it yields an infinity or a NaN and
  the run goes on.
\<close>

datatype error = AssertionFailed | OutOfBounds

subsection \<open>transpose\<close>

definition transpose_col :: "'a matrix \<Rightarrow> nat \<Rightarrow> 'a matrix \<Rightarrow> 'a matrix" where
  "transpose_col m j retval =
     fold (\<lambda>i rv. set_index rv i j (index m j i)) [0..<rows retval] retval"

definition transpose_matrix :: "('a::zero) matrix \<Rightarrow> 'a matrix" where
  "transpose_matrix m =
     (let retval = new_matrix (cols m) (rows m)
      in fold (transpose_col m) [0..<cols retval] retval)"

subsection \<open>factorize\<close>

text \<open>Lines 82 to 84: \<open>p\<close> gets \<open>rows\<close> entries, entry \<open>ii\<close> set to \<open>ii\<close>.\<close>

definition init_perm :: "'a matrix \<Rightarrow> 'a matrix" where
  "init_perm m = m\<lparr>p := [0..<rows m]\<rparr>"

text \<open>Lines 95 to 102: the scan for the pivot of column \<open>ii\<close>; the state is
  \<open>(maxpivot, imaxpivot)\<close>.\<close>

definition scan_step :: "('a::ord) matrix \<Rightarrow> nat \<Rightarrow> nat \<Rightarrow> 'a \<times> nat \<Rightarrow> 'a \<times> nat" where
  "scan_step m ii kk s =
     (if index m (p m ! kk) ii > fst s then (index m (p m ! kk) ii, kk) else s)"

definition find_pivot :: "('a::ord) matrix \<Rightarrow> nat \<Rightarrow> 'a \<times> nat" where
  "find_pivot m ii = fold (scan_step m ii) [ii + 1..<rows m] (index m (p m ! ii) ii, ii)"

text \<open>Lines 104 and 105: \<open>std::swap(p[ii], p[imaxpivot])\<close> when the two differ.\<close>

definition swap_pivot :: "'a matrix \<Rightarrow> nat \<Rightarrow> nat \<Rightarrow> 'a matrix" where
  "swap_pivot m ii imaxpivot =
     (if imaxpivot \<noteq> ii
      then m\<lparr>p := (p m)[ii := p m ! imaxpivot, imaxpivot := p m ! ii]\<rparr>
      else m)"

text \<open>Line 113: \<open>index(p[jj], kk) += -index(p[ii], kk) * index(p[jj], ii)\<close>.\<close>

definition update_entry :: "nat \<Rightarrow> nat \<Rightarrow> nat \<Rightarrow> ('a::{plus,uminus,times}) matrix \<Rightarrow> 'a matrix" where
  "update_entry ii jj kk m =
     set_index m (p m ! jj) kk
       (index m (p m ! jj) kk + (- index m (p m ! ii) kk) * index m (p m ! jj) ii)"

text \<open>Lines 110 to 113: the body of the loop over the rows \<open>jj\<close> below the pivot.\<close>

definition eliminate_row ::
  "'a \<Rightarrow> nat \<Rightarrow> nat \<Rightarrow> ('a::{plus,uminus,times,inverse}) matrix \<Rightarrow> 'a matrix" where
  "eliminate_row pivot ii jj m =
     (let m1 = set_index m (p m ! jj) ii (index m (p m ! jj) ii / pivot)
      in fold (update_entry ii jj) [ii + 1..<cols m1] m1)"

text \<open>Lines 107 to 114: the pivot is read once, then every row below is eliminated.\<close>

definition eliminate :: "nat \<Rightarrow> ('a::{plus,uminus,times,inverse}) matrix \<Rightarrow> 'a matrix" where
  "eliminate ii m =
     (let pivot = index m (p m ! ii) ii
      in fold (eliminate_row pivot ii) [ii + 1..<rows m] m)"

text \<open>Lines 95 to 114: the body of the loop over the pivot columns.\<close>

definition pivot_step :: "nat \<Rightarrow> ('a::{plus,uminus,times,inverse,ord}) matrix \<Rightarrow> 'a matrix" where
  "pivot_step ii m = eliminate ii (swap_pivot m ii (snd (find_pivot m ii)))"

text \<open>
  The whole of \<open>factorize\<close>. The loop bound \<open>m - 1\<close> is a signed \<open>int\<close> in the source, so
  the loop does not run for \<open>m = 0\<close>; the subtraction on \<open>nat\<close> gives the same.
\<close>

definition factorize ::
  "('a::{plus,uminus,times,inverse,ord}) matrix \<Rightarrow> error + 'a matrix" where
  "factorize m =
     (let m0 = init_perm m
      in if rows m0 \<noteq> cols m0 then Inl AssertionFailed
         else Inr ((fold pivot_step [0..<rows m0 - 1] m0)\<lparr>factorized := True\<rparr>))"

subsection \<open>solve\<close>

text \<open>Lines 61 to 64: one row of the forward substitution.\<close>

definition fwd_row :: "('a::{minus,times}) matrix \<Rightarrow> nat \<Rightarrow> 'a list \<Rightarrow> 'a list" where
  "fwd_row m ii b =
     (let f = fold (\<lambda>kk f. f - index m (p m ! ii) kk * b ! (p m ! kk)) [0..<ii] (b ! (p m ! ii))
      in b[p m ! ii := f])"

definition fwdsub :: "('a::{minus,times}) matrix \<Rightarrow> 'a list \<Rightarrow> 'a list" where
  "fwdsub m b = fold (fwd_row m) [0..<rows m] b"

text \<open>Lines 72 to 75: one row of the backward substitution.\<close>

definition bwd_row :: "('a::{minus,times,inverse}) matrix \<Rightarrow> nat \<Rightarrow> 'a list \<Rightarrow> 'a list" where
  "bwd_row m ii b =
     (let f = fold (\<lambda>kk f. f - index m (p m ! ii) kk * b ! (p m ! kk)) [ii + 1..<cols m]
                (b ! (p m ! ii))
      in b[p m ! ii := f / index m (p m ! ii) ii])"

text \<open>Lines 69 to 76: \<open>jj\<close> runs from 1 to \<open>rows\<close> and the row is \<open>ii = rows - jj\<close>.\<close>

definition bwdsub :: "('a::{minus,times,inverse}) matrix \<Rightarrow> 'a list \<Rightarrow> 'a list" where
  "bwdsub m b = fold (\<lambda>jj. bwd_row m (rows m - jj)) [1..<rows m + 1] b"

text \<open>
  The whole of \<open>solve\<close>. The result is the solver after the call together with the
  storage of \<open>rhs\<close> after the call. The two loops touch \<open>b[p[ii]]\<close> for every
  \<open>ii < rows\<close>, and \<open>p\<close> holds the numbers below \<open>rows\<close>: with fewer than \<open>rows\<close>
  entries in \<open>rhs\<close> the run reads and writes beyond its storage. The source makes no
  test of its own on \<open>rhs\<close>.
\<close>

definition solve ::
  "('a::{plus,minus,uminus,times,inverse,ord}) matrix \<Rightarrow> 'a list \<Rightarrow> error + ('a matrix \<times> 'a list)" where
  "solve m b =
     (case (if \<not> factorized m then factorize m else Inr m) of
        Inl e \<Rightarrow> Inl e
      | Inr m' \<Rightarrow>
          if length b < rows m' then Inl OutOfBounds
          else Inr (m', bwdsub m' (fwdsub m' b)))"

subsection \<open>The invariant of the permutation\<close>

text \<open>\<open>p\<close> has one entry for each row and holds every row number once.\<close>

definition perm_ok :: "'a matrix \<Rightarrow> bool" where
  "perm_ok m \<longleftrightarrow> length (p m) = rows m \<and> distinct (p m) \<and> set (p m) = {0..<rows m}"


section \<open>Basic facts\<close>

lemma fold_keeps: "(\<And>x s. g (f x s) = g s) \<Longrightarrow> g (fold f xs s) = g s"
  by (induction xs arbitrary: s) simp_all

lemma set_index_fields [simp]:
  "rows (set_index m r c v) = rows m"
  "cols (set_index m r c v) = cols m"
  "p (set_index m r c v) = p m"
  "factorized (set_index m r c v) = factorized m"
  "length (data (set_index m r c v)) = length (data m)"
  by (simp_all add: set_index_def)

lemma update_entry_fields [simp]:
  "rows (update_entry ii jj kk m) = rows m"
  "cols (update_entry ii jj kk m) = cols m"
  "p (update_entry ii jj kk m) = p m"
  "factorized (update_entry ii jj kk m) = factorized m"
  "length (data (update_entry ii jj kk m)) = length (data m)"
  by (simp_all add: update_entry_def)

lemma eliminate_row_fields [simp]:
  "rows (eliminate_row pv ii jj m) = rows m"
  "cols (eliminate_row pv ii jj m) = cols m"
  "p (eliminate_row pv ii jj m) = p m"
  "factorized (eliminate_row pv ii jj m) = factorized m"
  "length (data (eliminate_row pv ii jj m)) = length (data m)"
  by (simp_all add: eliminate_row_def Let_def fold_keeps
      fold_keeps [where g = "\<lambda>m. length (data m)"])

lemma eliminate_fields [simp]:
  "rows (eliminate ii m) = rows m"
  "cols (eliminate ii m) = cols m"
  "p (eliminate ii m) = p m"
  "factorized (eliminate ii m) = factorized m"
  "length (data (eliminate ii m)) = length (data m)"
  by (simp_all add: eliminate_def Let_def fold_keeps
      fold_keeps [where g = "\<lambda>m. length (data m)"])

lemma swap_pivot_fields [simp]:
  "rows (swap_pivot m ii k) = rows m"
  "cols (swap_pivot m ii k) = cols m"
  "data (swap_pivot m ii k) = data m"
  "factorized (swap_pivot m ii k) = factorized m"
  "length (p (swap_pivot m ii k)) = length (p m)"
  by (simp_all add: swap_pivot_def)

lemma pivot_step_fields [simp]:
  "rows (pivot_step ii m) = rows m"
  "cols (pivot_step ii m) = cols m"
  "factorized (pivot_step ii m) = factorized m"
  "length (data (pivot_step ii m)) = length (data m)"
  "length (p (pivot_step ii m)) = length (p m)"
  by (simp_all add: pivot_step_def)

lemma fold_pivot_step_fields [simp]:
  "rows (fold pivot_step is m) = rows m"
  "cols (fold pivot_step is m) = cols m"
  "factorized (fold pivot_step is m) = factorized m"
  "length (data (fold pivot_step is m)) = length (data m)"
  "length (p (fold pivot_step is m)) = length (p m)"
  by (simp_all add: fold_keeps fold_keeps [where g = "\<lambda>m. length (data m)"]
      fold_keeps [where g = "\<lambda>m. length (p m)"])

text \<open>The scan returns a position between \<open>ii\<close> and the last row.\<close>

lemma scan_step_snd: "snd (scan_step m ii kk s) = kk \<or> snd (scan_step m ii kk s) = snd s"
  by (simp add: scan_step_def)

lemma scan_range:
  "snd s = ii \<Longrightarrow> ii < k \<Longrightarrow>
   ii \<le> snd (fold (scan_step m ii) [Suc ii..<k] s) \<and> snd (fold (scan_step m ii) [Suc ii..<k] s) < k"
proof (induction k)
  case 0
  then show ?case by simp
next
  case (Suc k)
  show ?case
  proof (cases "ii < k")
    case True
    define t where "t = fold (scan_step m ii) [Suc ii..<k] s"
    from True Suc have IH: "ii \<le> snd t" "snd t < k" by (auto simp: t_def)
    from True have "fold (scan_step m ii) [Suc ii..<Suc k] s = scan_step m ii k t"
      by (simp add: t_def)
    with IH True scan_step_snd [of m ii k t] show ?thesis by auto
  next
    case False
    with Suc.prems have "k = ii" by simp
    with Suc.prems show ?thesis by auto
  qed
qed

lemma find_pivot_range:
  "ii < rows m \<Longrightarrow> ii \<le> snd (find_pivot m ii) \<and> snd (find_pivot m ii) < rows m"
  unfolding find_pivot_def using scan_range [where s = "(index m (p m ! ii) ii, ii)" and ii = ii and k = "rows m" and m = m]
  by simp

lemma perm_ok_init: "perm_ok (init_perm m)"
  by (simp add: perm_ok_def init_perm_def)

lemma perm_ok_swap:
  "perm_ok m \<Longrightarrow> ii < rows m \<Longrightarrow> k < rows m \<Longrightarrow> perm_ok (swap_pivot m ii k)"
  by (auto simp: perm_ok_def swap_pivot_def distinct_swap)

lemma perm_ok_eliminate: "perm_ok (eliminate ii m) = perm_ok m"
  by (simp add: perm_ok_def)

lemma perm_ok_pivot_step: "perm_ok m \<Longrightarrow> ii < rows m \<Longrightarrow> perm_ok (pivot_step ii m)"
  unfolding pivot_step_def perm_ok_eliminate
  by (rule perm_ok_swap) (simp_all add: find_pivot_range)

lemma perm_ok_fold:
  "perm_ok m \<Longrightarrow> \<forall>i \<in> set is. i < rows m \<Longrightarrow> perm_ok (fold pivot_step is m)"
proof (induction "is" arbitrary: m)
  case Nil
  then show ?case by simp
next
  case (Cons i "is")
  then show ?case by (simp add: perm_ok_pivot_step)
qed

lemma factorize_square:
  "rows m = cols m \<Longrightarrow>
   factorize m = Inr ((fold pivot_step [0..<rows m - 1] (init_perm m))\<lparr>factorized := True\<rparr>)"
  by (simp add: factorize_def init_perm_def Let_def)

lemma factorize_not_square: "rows m \<noteq> cols m \<Longrightarrow> factorize m = Inl AssertionFailed"
  by (simp add: factorize_def init_perm_def Let_def)

lemma factorize_result:
  assumes "factorize m = Inr m'"
  shows "rows m' = rows m" "cols m' = cols m" "rows m = cols m" "factorized m'" "perm_ok m'"
    "length (data m') = length (data m)"
proof -
  from assms have sq: "rows m = cols m"
    by (auto simp: factorize_def init_perm_def Let_def split: if_splits)
  with assms have m': "m' = (fold pivot_step [0..<rows m - 1] (init_perm m))\<lparr>factorized := True\<rparr>"
    by (simp add: factorize_square)
  show "rows m = cols m" by (rule sq)
  show "rows m' = rows m" "cols m' = cols m" "factorized m'" "length (data m') = length (data m)"
    by (simp_all add: m' init_perm_def)
  have "perm_ok (fold pivot_step [0..<rows m - 1] (init_perm m))"
    by (rule perm_ok_fold, rule perm_ok_init) (auto simp: init_perm_def)
  then show "perm_ok m'" by (simp add: m' perm_ok_def)
qed


subsection \<open>The substitutions write only at the positions held in \<open>p\<close>\<close>

lemma fwd_row_length [simp]: "length (fwd_row m ii b) = length b"
  by (simp add: fwd_row_def Let_def)

lemma bwd_row_length [simp]: "length (bwd_row m ii b) = length b"
  by (simp add: bwd_row_def Let_def)

lemma fwdsub_length [simp]: "length (fwdsub m b) = length b"
  unfolding fwdsub_def by (rule fold_keeps) simp

lemma bwdsub_length [simp]: "length (bwdsub m b) = length b"
  unfolding bwdsub_def by (rule fold_keeps) simp

lemma fwd_row_other: "i \<noteq> p m ! ii \<Longrightarrow> fwd_row m ii b ! i = b ! i"
  by (simp add: fwd_row_def Let_def)

lemma bwd_row_other: "i \<noteq> p m ! ii \<Longrightarrow> bwd_row m ii b ! i = b ! i"
  by (simp add: bwd_row_def Let_def)

lemma fold_fwd_row_other:
  "\<forall>ii \<in> set is. p m ! ii \<noteq> i \<Longrightarrow> fold (fwd_row m) is b ! i = b ! i"
  by (induction "is" arbitrary: b) (auto simp: fwd_row_other)

lemma fold_bwd_row_other:
  "\<forall>jj \<in> set js. p m ! (n - jj) \<noteq> i \<Longrightarrow> fold (\<lambda>jj. bwd_row m (n - jj)) js b ! i = b ! i"
  by (induction js arbitrary: b) (auto simp: bwd_row_other)

lemma perm_ok_nth: "perm_ok m \<Longrightarrow> ii < rows m \<Longrightarrow> p m ! ii < rows m"
proof -
  assume a: "perm_ok m" "ii < rows m"
  then have "ii < length (p m)" by (simp add: perm_ok_def)
  then have "p m ! ii \<in> set (p m)" by (rule nth_mem)
  also from a have "set (p m) = {0..<rows m}" by (simp add: perm_ok_def)
  finally show ?thesis by simp
qed

lemma subst_beyond:
  assumes "perm_ok m" and "rows m \<le> i"
  shows "bwdsub m (fwdsub m b) ! i = b ! i"
proof -
  have ne: "p m ! ii \<noteq> i" if "ii < rows m" for ii
    using perm_ok_nth [OF assms(1) that] assms(2) by simp
  have "\<forall>ii \<in> set [0..<rows m]. p m ! ii \<noteq> i"
    by (simp add: ne)
  then have fwd: "fwdsub m b ! i = b ! i"
    unfolding fwdsub_def by (rule fold_fwd_row_other)
  have "\<forall>jj \<in> set [1..<rows m + 1]. p m ! (rows m - jj) \<noteq> i"
  proof
    fix jj assume "jj \<in> set [1..<rows m + 1]"
    then have "rows m - jj < rows m" by auto
    then show "p m ! (rows m - jj) \<noteq> i" by (rule ne)
  qed
  then have "bwdsub m (fwdsub m b) ! i = fwdsub m b ! i"
    unfolding bwdsub_def by (rule fold_bwd_row_other)
  with fwd show ?thesis by simp
qed

subsection \<open>The three ways through \<open>solve\<close>\<close>

lemma solve_abort: "\<not> factorized m \<Longrightarrow> rows m \<noteq> cols m \<Longrightarrow> solve m b = Inl AssertionFailed"
  by (simp add: solve_def factorize_not_square)

lemma solve_fresh:
  assumes "\<not> factorized m" and "factorize m = Inr m'"
  shows "solve m b =
    (if length b < rows m then Inl OutOfBounds else Inr (m', bwdsub m' (fwdsub m' b)))"
proof -
  from assms(2) have "rows m' = rows m" by (rule factorize_result(1))
  with assms show ?thesis by (simp add: solve_def)
qed

lemma solve_cached:
  "factorized m \<Longrightarrow>
   solve m b = (if length b < rows m then Inl OutOfBounds else Inr (m, bwdsub m (fwdsub m b)))"
  by (simp add: solve_def)

lemma solve_Inr:
  assumes "solve m b = Inr (m', x)"
  shows "factorized m'" and "rows m' = rows m" and "rows m \<le> length b"
    and "x = bwdsub m' (fwdsub m' b)" and "if factorized m then m' = m else factorize m = Inr m'"
proof -
  have *: "(if factorized m then m' = m else factorize m = Inr m') \<and> rows m' \<le> length b
      \<and> x = bwdsub m' (fwdsub m' b)"
  proof (cases "factorized m")
    case True
    with assms show ?thesis by (auto simp: solve_def split: if_splits)
  next
    case False
    show ?thesis
    proof (cases "factorize m")
      case (Inl e)
      with False assms show ?thesis by (simp add: solve_def)
    next
      case (Inr m2)
      with False assms show ?thesis by (auto simp: solve_def split: if_splits)
    qed
  qed
  then show c5: "if factorized m then m' = m else factorize m = Inr m'" by simp
  show c1: "factorized m'"
  proof (cases "factorized m")
    case True
    with c5 show ?thesis by simp
  next
    case False
    with c5 have "factorize m = Inr m'" by simp
    then show ?thesis by (rule factorize_result(4))
  qed
  show c2: "rows m' = rows m"
  proof (cases "factorized m")
    case True
    with c5 show ?thesis by simp
  next
    case False
    with c5 have "factorize m = Inr m'" by simp
    then show ?thesis by (rule factorize_result(1))
  qed
  from * c2 show "rows m \<le> length b" by simp
  from * show "x = bwdsub m' (fwdsub m' b)" by simp
qed

subsection \<open>The scan for the pivot\<close>

lemma scan_invariant:
  fixes m :: "('a::linorder) matrix"
  assumes "ii < n"
  defines "t \<equiv> fold (scan_step m ii) [Suc ii..<n] (index m (p m ! ii) ii, ii)"
  shows "ii \<le> snd t \<and> snd t < n \<and> fst t = index m (p m ! snd t) ii \<and>
         (\<forall>j. ii \<le> j \<and> j < n \<longrightarrow> index m (p m ! j) ii \<le> fst t) \<and>
         (\<forall>j. ii \<le> j \<and> j < snd t \<longrightarrow> index m (p m ! j) ii < fst t)"
  using assms(1) unfolding t_def
proof (induction n)
  case 0
  then show ?case by simp
next
  case (Suc n)
  show ?case
  proof (cases "ii < n")
    case False
    with Suc.prems have n: "n = ii" by simp
    have "index m (p m ! j) ii \<le> index m (p m ! ii) ii" if "ii \<le> j" "j < Suc ii" for j
    proof -
      from that have "j = ii" by simp
      then show ?thesis by simp
    qed
    with n show ?thesis by auto
  next
    case True
    define u where "u = fold (scan_step m ii) [Suc ii..<n] (index m (p m ! ii) ii, ii)"
    have IH0: "ii \<le> snd u \<and> snd u < n \<and> fst u = index m (p m ! snd u) ii \<and>
         (\<forall>j. ii \<le> j \<and> j < n \<longrightarrow> index m (p m ! j) ii \<le> fst u) \<and>
         (\<forall>j. ii \<le> j \<and> j < snd u \<longrightarrow> index m (p m ! j) ii < fst u)"
      using Suc.IH [OF True] unfolding u_def .
    then have IH: "ii \<le> snd u" "snd u < n" "fst u = index m (p m ! snd u) ii"
      "\<And>j. ii \<le> j \<Longrightarrow> j < n \<Longrightarrow> index m (p m ! j) ii \<le> fst u"
      "\<And>j. ii \<le> j \<Longrightarrow> j < snd u \<Longrightarrow> index m (p m ! j) ii < fst u"
      by blast+
    from True have step: "fold (scan_step m ii) [Suc ii..<Suc n] (index m (p m ! ii) ii, ii)
        = scan_step m ii n u"
      by (simp add: u_def)
    show ?thesis
    proof (cases "index m (p m ! n) ii > fst u")
      case gt: True
      then have s: "scan_step m ii n u = (index m (p m ! n) ii, n)"
        by (simp add: scan_step_def)
      have "index m (p m ! j) ii \<le> index m (p m ! n) ii" if "ii \<le> j" "j < Suc n" for j
      proof (cases "j = n")
        case True
        then show ?thesis by simp
      next
        case False
        with that have "j < n" by simp
        from IH(4) [OF that(1) this] gt show ?thesis by simp
      qed
      moreover have "index m (p m ! j) ii < index m (p m ! n) ii" if "ii \<le> j" "j < n" for j
        using IH(4) [OF that] gt by simp
      ultimately show ?thesis unfolding step s using True by simp
    next
      case ngt: False
      then have s: "scan_step m ii n u = u" by (simp add: scan_step_def)
      have "index m (p m ! j) ii \<le> fst u" if "ii \<le> j" "j < Suc n" for j
      proof (cases "j = n")
        case True
        with ngt show ?thesis by simp
      next
        case False
        with that have "j < n" by simp
        from IH(4) [OF that(1) this] show ?thesis .
      qed
      with IH show ?thesis unfolding step s by simp
    qed
  qed
qed

lemma index_swap_pivot [simp]: "index (swap_pivot m ii k) r c = index m r c"
  by (simp add: index_def sub2ind_def)

lemma p_swap_pivot_nth:
  "ii < length (p m) \<Longrightarrow> k < length (p m) \<Longrightarrow> p (swap_pivot m ii k) ! ii = p m ! k"
  by (simp add: swap_pivot_def)

subsection \<open>Entries of the column-major storage\<close>

lemma sub2ind_less:
  assumes "wf_matrix m" and "r < rows m" and "c < cols m"
  shows "sub2ind m r c < length (data m)"
proof -
  have "r + c * rows m < rows m + c * rows m" using assms(2) by simp
  also have "\<dots> = Suc c * rows m" by simp
  also have "\<dots> \<le> cols m * rows m" using assms(3) by (intro mult_le_mono1) simp
  finally show ?thesis using assms(1) by (simp add: sub2ind_def wf_matrix_def mult.commute)
qed

lemma sub2ind_inj:
  assumes "r < rows m" and "r' < rows m" and "sub2ind m r c = sub2ind m r' c'"
  shows "r = r' \<and> c = c'"
proof -
  from assms(3) have e: "r + c * rows m = r' + c' * rows m" by (simp add: sub2ind_def)
  then have "(r + c * rows m) mod rows m = (r' + c' * rows m) mod rows m" by simp
  with assms(1,2) have r: "r = r'" by simp
  with e have "c * rows m = c' * rows m" by simp
  with assms(1) have "c = c'" by simp
  with r show ?thesis by simp
qed

lemma wf_set_index [simp]: "wf_matrix (set_index m r c v) = wf_matrix m"
  by (simp add: wf_matrix_def)

lemma index_set_index:
  assumes "wf_matrix m" and "r < rows m" and "c < cols m" and "r' < rows m"
  shows "index (set_index m r c v) r' c' = (if r' = r \<and> c' = c then v else index m r' c')"
proof (cases "r' = r \<and> c' = c")
  case True
  with sub2ind_less [OF assms(1-3)] show ?thesis
    by (simp add: index_def set_index_def sub2ind_def)
next
  case False
  with sub2ind_inj [OF assms(2,4), of c c'] have "sub2ind m r c \<noteq> sub2ind m r' c'" by auto
  with False show ?thesis
    by (auto simp: index_def set_index_def sub2ind_def)
qed

subsection \<open>The loops of \<open>transpose\<close>\<close>

lemma transpose_col_fields [simp]:
  "rows (transpose_col m j rv) = rows rv"
  "cols (transpose_col m j rv) = cols rv"
  "p (transpose_col m j rv) = p rv"
  "factorized (transpose_col m j rv) = factorized rv"
  "wf_matrix (transpose_col m j rv) = wf_matrix rv"
  by (simp_all add: transpose_col_def fold_keeps)

lemma fold_transpose_col_fields [simp]:
  "rows (fold (transpose_col m) js rv) = rows rv"
  "cols (fold (transpose_col m) js rv) = cols rv"
  "p (fold (transpose_col m) js rv) = p rv"
  "factorized (fold (transpose_col m) js rv) = factorized rv"
  "wf_matrix (fold (transpose_col m) js rv) = wf_matrix rv"
  by (simp_all add: fold_keeps)

lemma column_written:
  assumes "wf_matrix rv" and "j < cols rv" and "i' < rows rv" and "n \<le> rows rv"
  shows "index (fold (\<lambda>i rv. set_index rv i j (g i)) [0..<n] rv) i' j'
       = (if j' = j \<and> i' < n then g i' else index rv i' j')"
  using assms(4)
proof (induction n)
  case 0
  then show ?case by simp
next
  case (Suc n)
  define t where "t = fold (\<lambda>i rv. set_index rv i j (g i)) [0..<n] rv"
  have t: "rows t = rows rv" "cols t = cols rv" "wf_matrix t = wf_matrix rv"
    by (simp_all add: t_def fold_keeps)
  from Suc have IH: "index t i' j' = (if j' = j \<and> i' < n then g i' else index rv i' j')"
    by (simp add: t_def)
  have "index (set_index t n j (g n)) i' j'
      = (if i' = n \<and> j' = j then g n else index t i' j')"
    using assms Suc.prems t by (intro index_set_index) simp_all
  with IH show ?case by (auto simp: t_def [symmetric])
qed

lemma transpose_col_index:
  assumes "wf_matrix rv" and "j < cols rv" and "i' < rows rv"
  shows "index (transpose_col m j rv) i' j' = (if j' = j then index m j i' else index rv i' j')"
  unfolding transpose_col_def
  using column_written [OF assms order_refl, of "\<lambda>i. index m j i" j'] assms(3) by simp

lemma columns_written:
  assumes "wf_matrix rv" and "i' < rows rv" and "n \<le> cols rv"
  shows "index (fold (transpose_col m) [0..<n] rv) i' j'
       = (if j' < n then index m j' i' else index rv i' j')"
  using assms(3)
proof (induction n)
  case 0
  then show ?case by simp
next
  case (Suc n)
  define t where "t = fold (transpose_col m) [0..<n] rv"
  have t: "rows t = rows rv" "cols t = cols rv" "wf_matrix t = wf_matrix rv"
    by (simp_all add: t_def)
  from Suc have IH: "index t i' j' = (if j' < n then index m j' i' else index rv i' j')"
    by (simp add: t_def)
  have "index (transpose_col m n t) i' j' = (if j' = n then index m n i' else index t i' j')"
    using assms Suc.prems t by (intro transpose_col_index) simp_all
  with IH show ?case by (auto simp: t_def [symmetric])
qed

lemma new_matrix_fields [simp]:
  "rows (new_matrix r c) = r"
  "cols (new_matrix r c) = c"
  "p (new_matrix r c) = []"
  "factorized (new_matrix r c) = False"
  "wf_matrix (new_matrix r c)"
  by (simp_all add: new_matrix_def wf_matrix_def)

lemma transpose_matrix_fields [simp]:
  "rows (transpose_matrix m) = cols m"
  "cols (transpose_matrix m) = rows m"
  "p (transpose_matrix m) = []"
  "factorized (transpose_matrix m) = False"
  "wf_matrix (transpose_matrix m)"
  by (simp_all add: transpose_matrix_def Let_def)

lemma transpose_matrix_index:
  "i < cols m \<Longrightarrow> j < rows m \<Longrightarrow> index (transpose_matrix m) i j = index m j i"
  unfolding transpose_matrix_def Let_def
  using columns_written [of "new_matrix (cols m) (rows m)" i "rows m" m j] by simp

lemma data_eqI:
  assumes "wf_matrix m" and "wf_matrix m'" and "rows m' = rows m" and "cols m' = cols m"
    and "\<And>i j. i < rows m \<Longrightarrow> j < cols m \<Longrightarrow> index m' i j = index m i j"
  shows "data m' = data m"
proof (rule nth_equalityI)
  show "length (data m') = length (data m)"
    using assms(1-4) by (simp add: wf_matrix_def)
next
  fix k assume "k < length (data m')"
  with assms(2-4) have k: "k < rows m * cols m" by (simp add: wf_matrix_def)
  then have pos: "0 < rows m" by (cases "rows m") simp_all
  then have r: "k mod rows m < rows m" by simp
  from k have c: "k div rows m < cols m"
    by (simp add: less_mult_imp_div_less mult.commute)
  have "k = k mod rows m + k div rows m * rows m" by simp
  then have "data m' ! k = index m' (k mod rows m) (k div rows m)"
    and "data m ! k = index m (k mod rows m) (k div rows m)"
    using assms(3) by (simp_all add: index_def sub2ind_def)
  with assms(5) [OF r c] show "data m' ! k = data m ! k" by simp
qed

subsection \<open>The loops of the elimination\<close>

lemma update_entry_wf [simp]: "wf_matrix (update_entry ii jj kk m) = wf_matrix m"
  by (simp add: update_entry_def)

lemma fold_update_entry_fields [simp]:
  "rows (fold (update_entry ii jj) ks m) = rows m"
  "cols (fold (update_entry ii jj) ks m) = cols m"
  "p (fold (update_entry ii jj) ks m) = p m"
  "wf_matrix (fold (update_entry ii jj) ks m) = wf_matrix m"
  by (simp_all add: fold_keeps)

lemma row_updated:
  fixes m :: "('a::{plus,uminus,times}) matrix"
  assumes "wf_matrix m" and "p m ! jj < rows m" and "p m ! ii < rows m"
    and "p m ! jj \<noteq> p m ! ii" and "k \<le> cols m"
  shows "\<forall>r c. r < rows m \<longrightarrow>
    index (fold (update_entry ii jj) [Suc ii..<k] m) r c
      = (if r = p m ! jj \<and> ii < c \<and> c < k
         then index m (p m ! jj) c + (- index m (p m ! ii) c) * index m (p m ! jj) ii
         else index m r c)"
  using assms(5)
proof (induction k)
  case 0
  then show ?case by simp
next
  case (Suc k)
  show ?case
  proof (cases "ii < k")
    case False
    then have "[Suc ii..<Suc k] = []" by simp
    with False show ?thesis by auto
  next
    case True
    define t where "t = fold (update_entry ii jj) [Suc ii..<k] m"
    have t: "rows t = rows m" "cols t = cols m" "p t = p m" "wf_matrix t"
      using assms(1) by (simp_all add: t_def)
    from Suc have IH: "\<And>r c. r < rows m \<Longrightarrow> index t r c
      = (if r = p m ! jj \<and> ii < c \<and> c < k
         then index m (p m ! jj) c + (- index m (p m ! ii) c) * index m (p m ! jj) ii
         else index m r c)"
      by (simp add: t_def)
    have v: "index t (p m ! jj) k + (- index t (p m ! ii) k) * index t (p m ! jj) ii
      = index m (p m ! jj) k + (- index m (p m ! ii) k) * index m (p m ! jj) ii"
      using assms(2-4) by (simp add: IH)
    from True have step: "fold (update_entry ii jj) [Suc ii..<Suc k] m = update_entry ii jj k t"
      by (simp add: t_def)
    have "index (update_entry ii jj k t) r c
      = (if r = p m ! jj \<and> ii < c \<and> c < Suc k
         then index m (p m ! jj) c + (- index m (p m ! ii) c) * index m (p m ! jj) ii
         else index m r c)" if r: "r < rows m" for r c
    proof -
      have "index (update_entry ii jj k t) r c
        = (if r = p m ! jj \<and> c = k
           then index m (p m ! jj) k + (- index m (p m ! ii) k) * index m (p m ! jj) ii
           else index t r c)"
        unfolding update_entry_def t(3) v
        using t assms(2) Suc.prems r by (intro index_set_index) simp_all
      with IH [OF r] True show ?thesis by (auto simp: less_Suc_eq)
    qed
    then show ?thesis unfolding step by blast
  qed
qed

lemma eliminate_row_wf [simp]: "wf_matrix (eliminate_row pv ii jj m) = wf_matrix m"
  by (simp add: wf_matrix_def)

lemma fold_eliminate_row_fields [simp]:
  "rows (fold (eliminate_row pv ii) js m) = rows m"
  "cols (fold (eliminate_row pv ii) js m) = cols m"
  "p (fold (eliminate_row pv ii) js m) = p m"
  "wf_matrix (fold (eliminate_row pv ii) js m) = wf_matrix m"
  by (simp_all add: fold_keeps)

lemma row_eliminated:
  fixes m :: "('a::{plus,uminus,times,inverse}) matrix"
  assumes "wf_matrix m" and "p m ! jj < rows m" and "p m ! ii < rows m"
    and "p m ! jj \<noteq> p m ! ii" and "ii < cols m" and "r < rows m"
  shows "index (eliminate_row pv ii jj m) r c
    = (if r = p m ! jj
       then (if c = ii then index m r ii / pv
             else if ii < c \<and> c < cols m
             then index m r c + (- index m (p m ! ii) c) * (index m r ii / pv)
             else index m r c)
       else index m r c)"
proof -
  define m1 where "m1 = set_index m (p m ! jj) ii (index m (p m ! jj) ii / pv)"
  have m1: "rows m1 = rows m" "cols m1 = cols m" "p m1 = p m" "wf_matrix m1"
    using assms(1) by (simp_all add: m1_def)
  have i1: "index m1 r' c' = (if r' = p m ! jj \<and> c' = ii then index m (p m ! jj) ii / pv
      else index m r' c')" if "r' < rows m" for r' c'
    unfolding m1_def using assms(1,2,5) that by (intro index_set_index) simp_all
  have "\<forall>r c. r < rows m1 \<longrightarrow>
    index (fold (update_entry ii jj) [Suc ii..<cols m1] m1) r c
      = (if r = p m1 ! jj \<and> ii < c \<and> c < cols m1
         then index m1 (p m1 ! jj) c + (- index m1 (p m1 ! ii) c) * index m1 (p m1 ! jj) ii
         else index m1 r c)"
    using assms(2-4) m1 by (intro row_updated) simp_all
  then have "index (fold (update_entry ii jj) [Suc ii..<cols m1] m1) r c
      = (if r = p m ! jj \<and> ii < c \<and> c < cols m
         then index m1 (p m ! jj) c + (- index m1 (p m ! ii) c) * index m1 (p m ! jj) ii
         else index m1 r c)"
    using assms(6) m1 by simp
  moreover have "eliminate_row pv ii jj m = fold (update_entry ii jj) [Suc ii..<cols m1] m1"
    by (simp add: eliminate_row_def m1_def Let_def)
  ultimately show ?thesis
    using assms(2-4,6) by (auto simp: i1)
qed

lemma rows_eliminated:
  fixes m :: "('a::{plus,uminus,times,inverse}) matrix"
  assumes "wf_matrix m" and "perm_ok m" and "ii < rows m" and "ii < cols m" and "k \<le> rows m"
  shows "\<forall>j c. j < rows m \<longrightarrow>
    index (fold (eliminate_row pv ii) [Suc ii..<k] m) (p m ! j) c
      = (if ii < j \<and> j < k
         then (if c = ii then index m (p m ! j) ii / pv
               else if ii < c \<and> c < cols m
               then index m (p m ! j) c + (- index m (p m ! ii) c) * (index m (p m ! j) ii / pv)
               else index m (p m ! j) c)
         else index m (p m ! j) c)"
  using assms(5)
proof (induction k)
  case 0
  then show ?case by simp
next
  case (Suc k)
  show ?case
  proof (cases "ii < k")
    case False
    then have "[Suc ii..<Suc k] = []" by simp
    with False show ?thesis by auto
  next
    case True
    define t where "t = fold (eliminate_row pv ii) [Suc ii..<k] m"
    have t: "rows t = rows m" "cols t = cols m" "p t = p m" "wf_matrix t"
      using assms(1) by (simp_all add: t_def)
    from Suc have IH: "\<And>j c. j < rows m \<Longrightarrow> index t (p m ! j) c
      = (if ii < j \<and> j < k
         then (if c = ii then index m (p m ! j) ii / pv
               else if ii < c \<and> c < cols m
               then index m (p m ! j) c + (- index m (p m ! ii) c) * (index m (p m ! j) ii / pv)
               else index m (p m ! j) c)
         else index m (p m ! j) c)"
      by (simp add: t_def)
    from Suc.prems have k: "k < rows m" by simp
    from assms(2) have d: "distinct (p m)" "length (p m) = rows m"
      by (simp_all add: perm_ok_def)
    have ne: "p m ! j = p m ! k \<longleftrightarrow> j = k" if "j < rows m" for j
      using d k that by (simp add: nth_eq_iff_index_eq)
    from True have step: "fold (eliminate_row pv ii) [Suc ii..<Suc k] m = eliminate_row pv ii k t"
      by (simp add: t_def)
    have el: "index (eliminate_row pv ii k t) r c
      = (if r = p t ! k
         then (if c = ii then index t r ii / pv
               else if ii < c \<and> c < cols t
               then index t r c + (- index t (p t ! ii) c) * (index t r ii / pv)
               else index t r c)
         else index t r c)" if "r < rows t" for r c
      using t perm_ok_nth [OF assms(2)] k assms(3,4) ne [of ii] True that
      by (intro row_eliminated) simp_all
    have "index (eliminate_row pv ii k t) (p m ! j) c
      = (if ii < j \<and> j < Suc k
         then (if c = ii then index m (p m ! j) ii / pv
               else if ii < c \<and> c < cols m
               then index m (p m ! j) c + (- index m (p m ! ii) c) * (index m (p m ! j) ii / pv)
               else index m (p m ! j) c)
         else index m (p m ! j) c)" if j: "j < rows m" for j c
    proof (cases "j = k")
      case True
      with el [of "p m ! k" c] perm_ok_nth [OF assms(2) k] t \<open>ii < k\<close> k assms(3)
      show ?thesis by (simp add: IH)
    next
      case False
      with ne [OF j] el [of "p m ! j" c] perm_ok_nth [OF assms(2) j] t
      have "index (eliminate_row pv ii k t) (p m ! j) c = index t (p m ! j) c" by simp
      with False IH [OF j] show ?thesis by (auto simp: less_Suc_eq)
    qed
    then show ?thesis unfolding step by blast
  qed
qed

subsection \<open>The loops of the two substitutions\<close>

lemma fold_minus_sum:
  fixes g :: "nat \<Rightarrow> 'a::ab_group_add"
  shows "fold (\<lambda>kk f. f - g kk) [a..<b] f0 = f0 - (\<Sum>kk = a..<b. g kk)"
proof (induction b)
  case 0
  then show ?case by simp
next
  case (Suc b)
  show ?case
  proof (cases "a \<le> b")
    case True
    with Suc show ?thesis by (simp add: algebra_simps)
  next
    case False
    then show ?thesis by simp
  qed
qed

lemma fwd_row_sum:
  fixes m :: "('a::comm_ring) matrix"
  shows "fwd_row m ii b
    = b[p m ! ii := b ! (p m ! ii) - (\<Sum>kk = 0..<ii. index m (p m ! ii) kk * b ! (p m ! kk))]"
  unfolding fwd_row_def Let_def
  by (simp only: fold_minus_sum [where g = "\<lambda>kk. index m (p m ! ii) kk * b ! (p m ! kk)"])

lemma bwd_row_sum:
  fixes m :: "('a::field) matrix"
  shows "bwd_row m ii b
    = b[p m ! ii := (b ! (p m ! ii)
          - (\<Sum>kk = Suc ii..<cols m. index m (p m ! ii) kk * b ! (p m ! kk)))
        / index m (p m ! ii) ii]"
  unfolding bwd_row_def Let_def Suc_eq_plus1
  by (simp only: fold_minus_sum [where g = "\<lambda>kk. index m (p m ! ii) kk * b ! (p m ! kk)"])

lemma perm_ok_nth_eq:
  "perm_ok m \<Longrightarrow> i < rows m \<Longrightarrow> j < rows m \<Longrightarrow> p m ! i = p m ! j \<longleftrightarrow> i = j"
  by (simp add: perm_ok_def nth_eq_iff_index_eq)

lemma forward_invariant:
  fixes m :: "('a::comm_ring) matrix"
  assumes "perm_ok m" and "rows m \<le> length b" and "k \<le> rows m"
  shows "\<forall>j<rows m. fold (fwd_row m) [0..<k] b ! (p m ! j)
    = (if j < k
       then b ! (p m ! j)
            - (\<Sum>kk = 0..<j. index m (p m ! j) kk * fold (fwd_row m) [0..<k] b ! (p m ! kk))
       else b ! (p m ! j))"
  using assms(3)
proof (induction k)
  case 0
  then show ?case by simp
next
  case (Suc k)
  define y where "y = fold (fwd_row m) [0..<k] b"
  define v where "v = y ! (p m ! k) - (\<Sum>kk = 0..<k. index m (p m ! k) kk * y ! (p m ! kk))"
  define y' where "y' = fold (fwd_row m) [0..<Suc k] b"
  from Suc.prems have k: "k < rows m" by simp
  have len: "length y = length b" unfolding y_def by (rule fold_keeps) simp
  have y': "y' = y[p m ! k := v]"
    by (simp add: y'_def y_def v_def fwd_row_sum)
  from Suc have IH: "\<And>j. j < rows m \<Longrightarrow> y ! (p m ! j)
    = (if j < k
       then b ! (p m ! j) - (\<Sum>kk = 0..<j. index m (p m ! j) kk * y ! (p m ! kk))
       else b ! (p m ! j))"
    by (simp add: y_def)
  have upd: "y' ! (p m ! j) = (if j = k then v else y ! (p m ! j))" if "j < rows m" for j
    using perm_ok_nth [OF assms(1) k] perm_ok_nth_eq [OF assms(1) that k] assms(2) len
    by (auto simp: y' nth_list_update)
  have same: "(\<Sum>kk = 0..<j. index m (p m ! j) kk * y' ! (p m ! kk))
      = (\<Sum>kk = 0..<j. index m (p m ! j) kk * y ! (p m ! kk))" if "j \<le> k" for j
    by (rule sum.cong) (use that k upd in auto)
  have "y' ! (p m ! j)
    = (if j < Suc k
       then b ! (p m ! j) - (\<Sum>kk = 0..<j. index m (p m ! j) kk * y' ! (p m ! kk))
       else b ! (p m ! j))" if j: "j < rows m" for j
  proof (cases "j = k")
    case True
    with upd [OF j] IH [OF j] same [of k] show ?thesis by (simp add: v_def)
  next
    case False
    show ?thesis
    proof (cases "j < k")
      case True
      with upd [OF j] IH [OF j] same [of j] show ?thesis by simp
    next
      case False
      with \<open>j \<noteq> k\<close> upd [OF j] IH [OF j] show ?thesis by simp
    qed
  qed
  then show ?case unfolding y'_def by blast
qed

lemma backward_invariant:
  fixes m :: "('a::field) matrix"
  assumes "perm_ok m" and "rows m = cols m" and "rows m \<le> length y" and "t \<le> rows m"
  shows "\<forall>j<rows m. fold (\<lambda>jj. bwd_row m (rows m - jj)) [1..<Suc t] y ! (p m ! j)
    = (if rows m - t \<le> j
       then (y ! (p m ! j)
             - (\<Sum>kk = Suc j..<rows m. index m (p m ! j) kk
                  * fold (\<lambda>jj. bwd_row m (rows m - jj)) [1..<Suc t] y ! (p m ! kk)))
            / index m (p m ! j) j
       else y ! (p m ! j))"
  using assms(4)
proof (induction t)
  case 0
  then show ?case by simp
next
  case (Suc t)
  define i where "i = rows m - Suc t"
  define x where "x = fold (\<lambda>jj. bwd_row m (rows m - jj)) [1..<Suc t] y"
  define v where "v = (x ! (p m ! i)
      - (\<Sum>kk = Suc i..<rows m. index m (p m ! i) kk * x ! (p m ! kk))) / index m (p m ! i) i"
  define x' where "x' = fold (\<lambda>jj. bwd_row m (rows m - jj)) [1..<Suc (Suc t)] y"
  from Suc.prems have i: "i < rows m" "rows m - t = Suc i" by (simp_all add: i_def)
  have len: "length x = length y" unfolding x_def by (rule fold_keeps) simp
  have x': "x' = x[p m ! i := v]"
    by (simp add: x'_def x_def v_def i_def bwd_row_sum assms(2) [symmetric])
  from Suc i have IH: "\<And>j. j < rows m \<Longrightarrow> x ! (p m ! j)
    = (if Suc i \<le> j
       then (y ! (p m ! j) - (\<Sum>kk = Suc j..<rows m. index m (p m ! j) kk * x ! (p m ! kk)))
            / index m (p m ! j) j
       else y ! (p m ! j))"
    by (simp add: x_def)
  have upd: "x' ! (p m ! j) = (if j = i then v else x ! (p m ! j))" if "j < rows m" for j
    using perm_ok_nth [OF assms(1) i(1)] perm_ok_nth_eq [OF assms(1) that i(1)] assms(3) len
    by (auto simp: x' nth_list_update)
  have same: "(\<Sum>kk = Suc j..<rows m. index m (p m ! j) kk * x' ! (p m ! kk))
      = (\<Sum>kk = Suc j..<rows m. index m (p m ! j) kk * x ! (p m ! kk))" if "i \<le> j" for j
    by (rule sum.cong) (use that upd in auto)
  have "x' ! (p m ! j)
    = (if rows m - Suc t \<le> j
       then (y ! (p m ! j) - (\<Sum>kk = Suc j..<rows m. index m (p m ! j) kk * x' ! (p m ! kk)))
            / index m (p m ! j) j
       else y ! (p m ! j))" if j: "j < rows m" for j
  proof (cases "j = i")
    case True
    with upd [OF j] IH [OF j] same [of i] show ?thesis by (simp add: v_def i_def)
  next
    case False
    show ?thesis
    proof (cases "i < j")
      case True
      with upd [OF j] IH [OF j] same [of j] show ?thesis by (simp add: i_def [symmetric])
    next
      case False
      with \<open>j \<noteq> i\<close> upd [OF j] IH [OF j] show ?thesis by (simp add: i_def [symmetric])
    qed
  qed
  then show ?case unfolding x'_def by blast
qed

subsection \<open>The states of \<open>factorize\<close> at the head of its loop\<close>

lemma factorize_split:
  assumes "rows m = cols m" and "ii < rows m - 1"
  shows "factorize m = Inr ((fold pivot_step [Suc ii..<rows m - 1]
           (pivot_step ii (fold pivot_step [0..<ii] (init_perm m))))\<lparr>factorized := True\<rparr>)"
proof -
  from assms(2) have "[0..<rows m - 1] = [0..<ii] @ ii # [Suc ii..<rows m - 1]"
    by (metis le_add1 upt_add_eq_append upt_conv_Cons plus_nat.add_0 less_imp_le_nat
        le_add_diff_inverse)
  then show ?thesis by (simp add: factorize_square [OF assms(1)])
qed

lemma pivot_step_p_before: "ii < jj \<Longrightarrow> jj < rows t \<Longrightarrow> p (pivot_step jj t) ! ii = p t ! ii"
  using find_pivot_range [of jj t] by (simp add: pivot_step_def swap_pivot_def)

lemma fold_pivot_step_p_before:
  "\<forall>j \<in> set js. ii < j \<and> j < rows t \<Longrightarrow> p (fold pivot_step js t) ! ii = p t ! ii"
  by (induction js arbitrary: t) (simp_all add: pivot_step_p_before)

lemma init_perm_fields [simp]:
  "rows (init_perm m) = rows m"
  "cols (init_perm m) = cols m"
  "data (init_perm m) = data m"
  "factorized (init_perm m) = factorized m"
  by (simp_all add: init_perm_def)

lemma loop_head_state:
  assumes "ii < rows m" and "t = fold pivot_step [0..<ii] (init_perm m)"
  shows "rows t = rows m" and "cols t = cols m" and "perm_ok t"
    and "wf_matrix t = wf_matrix m"
proof -
  show "rows t = rows m" "cols t = cols m" by (simp_all add: assms(2))
  show "wf_matrix t = wf_matrix m" by (simp add: assms(2) wf_matrix_def)
  show "perm_ok t" unfolding assms(2)
    by (rule perm_ok_fold, rule perm_ok_init) (use assms(1) in auto)
qed

lemma swap_pivot_wf [simp]: "wf_matrix (swap_pivot m ii k) = wf_matrix m"
  by (simp add: wf_matrix_def)


lemma pivot_choice:
  fixes m :: "('a::{linorder,plus,uminus,times,inverse}) matrix"
  assumes "ii < rows m" and "length (p m) = rows m" and "k = snd (find_pivot m ii)"
  shows "ii \<le> k \<and> k < rows m \<and>
    (\<forall>j. ii \<le> j \<and> j < rows m \<longrightarrow> index m (p m ! j) ii \<le> index m (p m ! k) ii) \<and>
    (\<forall>j. ii \<le> j \<and> j < k \<longrightarrow> index m (p m ! j) ii < index m (p m ! k) ii) \<and>
    p (pivot_step ii m) ! ii = p m ! k \<and>
    index (swap_pivot m ii k) (p (swap_pivot m ii k) ! ii) ii = index m (p m ! k) ii"
proof -
  define t where "t = find_pivot m ii"
  have inv: "ii \<le> snd t \<and> snd t < rows m \<and> fst t = index m (p m ! snd t) ii \<and>
         (\<forall>j. ii \<le> j \<and> j < rows m \<longrightarrow> index m (p m ! j) ii \<le> fst t) \<and>
         (\<forall>j. ii \<le> j \<and> j < snd t \<longrightarrow> index m (p m ! j) ii < fst t)"
    unfolding t_def find_pivot_def Suc_eq_plus1 [symmetric]
    by (rule scan_invariant [OF assms(1)])
  have k: "snd t = k" by (simp add: t_def assms(3))
  from inv k have range: "ii \<le> k" "k < rows m" by simp_all
  with assms(1,2) have sw: "p (swap_pivot m ii k) ! ii = p m ! k"
    by (simp add: p_swap_pivot_nth)
  then have "p (pivot_step ii m) ! ii = p m ! k"
    by (simp add: pivot_step_def assms(3))
  moreover from inv have "fst t = index m (p m ! k) ii"
    "\<forall>j. ii \<le> j \<and> j < rows m \<longrightarrow> index m (p m ! j) ii \<le> fst t"
    "\<forall>j. ii \<le> j \<and> j < k \<longrightarrow> index m (p m ! j) ii < fst t"
    unfolding k by blast+
  ultimately show ?thesis using range sw by simp
qed


lemma eliminate_entries:
  fixes m :: "('a::field) matrix"
  assumes "wf_matrix m" and "perm_ok m" and "rows m = cols m" and "ii < jj" and "jj < rows m"
  shows "index (eliminate ii m) (p m ! jj) ii = index m (p m ! jj) ii / index m (p m ! ii) ii \<and>
    (\<forall>kk. ii < kk \<and> kk < cols m \<longrightarrow>
       index (eliminate ii m) (p m ! jj) kk
         = index m (p m ! jj) kk
           - index m (p m ! ii) kk * (index m (p m ! jj) ii / index m (p m ! ii) ii)) \<and>
    (\<forall>c<ii. index (eliminate ii m) (p m ! jj) c = index m (p m ! jj) c) \<and>
    (\<forall>j c. j \<le> ii \<longrightarrow> index (eliminate ii m) (p m ! j) c = index m (p m ! j) c) \<and>
    p (eliminate ii m) = p m"
proof -
  define pv where "pv = index m (p m ! ii) ii"
  have e: "eliminate ii m = fold (eliminate_row pv ii) [Suc ii..<rows m] m"
    by (simp add: eliminate_def pv_def)
  from assms have ii: "ii < rows m" "ii < cols m" by simp_all
  have *: "index (eliminate ii m) (p m ! j) c
      = (if ii < j \<and> j < rows m
         then (if c = ii then index m (p m ! j) ii / pv
               else if ii < c \<and> c < cols m
               then index m (p m ! j) c + (- index m (p m ! ii) c) * (index m (p m ! j) ii / pv)
               else index m (p m ! j) c)
         else index m (p m ! j) c)" if "j < rows m" for j c
    unfolding e using rows_eliminated [OF assms(1,2) ii order_refl, of pv] that by blast
  have "index (eliminate ii m) (p m ! jj) ii = index m (p m ! jj) ii / pv"
    using * [OF assms(5), of ii] assms(4,5) by simp
  moreover have "index (eliminate ii m) (p m ! jj) kk
      = index m (p m ! jj) kk - index m (p m ! ii) kk * (index m (p m ! jj) ii / pv)"
    if "ii < kk" "kk < cols m" for kk
    using * [OF assms(5), of kk] assms(4,5) that by simp
  moreover have "index (eliminate ii m) (p m ! jj) c = index m (p m ! jj) c" if "c < ii" for c
    using * [OF assms(5), of c] that by simp
  moreover have "index (eliminate ii m) (p m ! j) c = index m (p m ! j) c" if "j \<le> ii" for j c
    using * [of j c] that ii by simp
  ultimately show ?thesis by (simp add: pv_def)
qed


section \<open>The claims\<close>

text \<open>
  C6. After \<open>factorize\<close> has run on a square matrix of dimension \<open>n\<close>, which it always
  does to the end, the permutation \<open>p\<close> has length \<open>n\<close>, has no duplicates, holds
  exactly the values \<open>0, \<dots>, n - 1\<close>, and is therefore a bijection on them.
\<close>

theorem factorize_permutation:
  "rows m = cols m \<Longrightarrow>
   \<exists>m'. factorize m = Inr m' \<and> length (p m') = rows m \<and> distinct (p m') \<and>
        set (p m') = {0..<rows m} \<and> bij_betw (\<lambda>i. p m' ! i) {0..<rows m} {0..<rows m}"
proof -
  assume sq: "rows m = cols m"
  define m' where "m' = (fold pivot_step [0..<rows m - 1] (init_perm m))\<lparr>factorized := True\<rparr>"
  from sq have f: "factorize m = Inr m'"
    by (simp add: m'_def factorize_square)
  from factorize_result(1,5) [OF f]
  have ok: "length (p m') = rows m" "distinct (p m')" "set (p m') = {0..<rows m}"
    by (simp_all add: perm_ok_def)
  then have "bij_betw (\<lambda>i. p m' ! i) {0..<rows m} {0..<rows m}"
    using bij_betw_nth [of "p m'" "{0..<rows m}" "{0..<rows m}"]
    by (simp add: atLeast0LessThan)
  with f ok show ?thesis by blast
qed

theorem factorize_permutation_witness:
  "rows \<lparr>data = [1, 2, 2, 4::real], rows = 2, cols = 2, p = [], factorized = False\<rparr> = 2 \<and>
   factorize \<lparr>data = [1, 2, 2, 4::real], rows = 2, cols = 2, p = [], factorized = False\<rparr>
     = Inr \<lparr>data = [1 / 2, 2, 0, 4], rows = 2, cols = 2, p = [1, 0], factorized = True\<rparr> \<and>
   bij_betw (\<lambda>i. [1, 0::nat] ! i) {0..<2} {0..<2}"
proof -
  let ?A = "\<lparr>data = [1, 2, 2, 4::real], rows = 2, cols = 2, p = [], factorized = False\<rparr>"
  have sq: "rows ?A = cols ?A" by simp
  have f: "factorize ?A
     = Inr \<lparr>data = [1 / 2, 2, 0, 4], rows = 2, cols = 2, p = [1, 0], factorized = True\<rparr>"
    by code_simp
  from factorize_permutation [OF sq] f show ?thesis by simp
qed

text \<open>
  C7. A solver is created with the flag \<open>factorized\<close> unset. A call of \<open>solve\<close> that
  finds the flag unset runs \<open>factorize\<close>, whose result has the flag set; a call that
  finds it set runs the two substitutions only and returns the solver as it was: the
  storage, the permutation and the flag are unchanged, only \<open>rhs\<close> is rewritten. The
  flag of a solver that \<open>solve\<close> returns is always set, so \<open>factorize\<close> runs at most
  once for each solver.
\<close>

theorem factorize_at_most_once:
  "\<not> factorized (new_matrix r c :: ('a::{zero,plus,minus,uminus,times,inverse,ord}) matrix) \<and>
   (\<not> factorized (m::'a matrix) \<longrightarrow> solve m b = Inr (m1, x) \<longrightarrow>
      factorize m = Inr m1 \<and> factorized m1) \<and>
   (factorized m \<longrightarrow> solve m b = Inr (m1, x) \<longrightarrow> m1 = m \<and> x = bwdsub m (fwdsub m b))"
  using solve_Inr [of m b m1 x] by (auto simp: new_matrix_def)

theorem factorize_at_most_once_witness:
  "\<not> factorized (new_matrix 2 2 :: real matrix) \<and>
   \<not> factorized \<lparr>data = [2, 1, 1, 3::real], rows = 2, cols = 2, p = [], factorized = False\<rparr> \<and>
   solve \<lparr>data = [2, 1, 1, 3::real], rows = 2, cols = 2, p = [], factorized = False\<rparr> [3, 5]
     = Inr (\<lparr>data = [2, 1 / 2, 1, 5 / 2], rows = 2, cols = 2, p = [0, 1], factorized = True\<rparr>,
            [4 / 5, 7 / 5]) \<and>
   factorize \<lparr>data = [2, 1, 1, 3::real], rows = 2, cols = 2, p = [], factorized = False\<rparr>
     = Inr \<lparr>data = [2, 1 / 2, 1, 5 / 2], rows = 2, cols = 2, p = [0, 1], factorized = True\<rparr> \<and>
   factorized \<lparr>data = [2, 1 / 2, 1, 5 / 2::real], rows = 2, cols = 2, p = [0, 1], factorized = True\<rparr> \<and>
   solve \<lparr>data = [2, 1 / 2, 1, 5 / 2::real], rows = 2, cols = 2, p = [0, 1], factorized = True\<rparr> [2, 1]
     = Inr (\<lparr>data = [2, 1 / 2, 1, 5 / 2], rows = 2, cols = 2, p = [0, 1], factorized = True\<rparr>,
            [1, 0])"
proof -
  let ?A = "\<lparr>data = [2, 1, 1, 3::real], rows = 2, cols = 2, p = [], factorized = False\<rparr>"
  let ?LU = "\<lparr>data = [2, 1 / 2, 1, 5 / 2::real], rows = 2, cols = 2, p = [0, 1], factorized = True\<rparr>"
  have s1: "solve ?A [3, 5] = Inr (?LU, [4 / 5, 7 / 5])" by code_simp
  have s2: "solve ?LU [2, 1] = Inr (?LU, [1, 0])" by code_simp
  from factorize_at_most_once [of 2 2 ?A "[3, 5]" ?LU "[4 / 5, 7 / 5]"] s1
  have "factorize ?A = Inr ?LU" by simp
  moreover from factorize_at_most_once [of 2 2 ?LU "[2, 1]" ?LU "[1, 0]"]
  have "\<not> factorized (new_matrix 2 2 :: real matrix)" by blast
  ultimately show ?thesis using s1 s2 by simp
qed

text \<open>
  C8. When a call \<open>solve(b1)\<close> has returned, a second call \<open>solve(b2)\<close> on the same
  solver, which reuses the stored factorization, ends exactly as \<open>solve(b2)\<close> does on
  the solver as it was before the first call, which factorizes afresh: the same result
  vector and the same solver state, or the same failure. In particular a second call
  with the content of \<open>b1\<close> gives the result of the first call again.
\<close>

theorem reuse_equals_fresh:
  "solve m b1 = Inr (m1, x1) \<Longrightarrow>
   solve m1 b2 = solve m b2 \<and> solve m1 b1 = Inr (m1, x1)"
proof -
  assume s: "solve m b1 = Inr (m1, x1)"
  note r = solve_Inr [OF s]
  have "solve m1 b = solve m b" for b
  proof (cases "factorized m")
    case True
    with r(5) show ?thesis by simp
  next
    case False
    with r(5) have "factorize m = Inr m1" by simp
    from solve_fresh [OF False this] solve_cached [OF r(1)] r(2) show ?thesis by simp
  qed
  with s show ?thesis by simp
qed

theorem reuse_equals_fresh_witness:
  "solve \<lparr>data = [2, 1, 1, 3::real], rows = 2, cols = 2, p = [], factorized = False\<rparr> [3, 5]
     = Inr (\<lparr>data = [2, 1 / 2, 1, 5 / 2], rows = 2, cols = 2, p = [0, 1], factorized = True\<rparr>,
            [4 / 5, 7 / 5]) \<and>
   solve \<lparr>data = [2, 1 / 2, 1, 5 / 2::real], rows = 2, cols = 2, p = [0, 1], factorized = True\<rparr> [2, 1]
     = solve \<lparr>data = [2, 1, 1, 3::real], rows = 2, cols = 2, p = [], factorized = False\<rparr> [2, 1] \<and>
   solve \<lparr>data = [2, 1, 1, 3::real], rows = 2, cols = 2, p = [], factorized = False\<rparr> [2, 1]
     = Inr (\<lparr>data = [2, 1 / 2, 1, 5 / 2], rows = 2, cols = 2, p = [0, 1], factorized = True\<rparr>,
            [1, 0])"
proof -
  let ?A = "\<lparr>data = [2, 1, 1, 3::real], rows = 2, cols = 2, p = [], factorized = False\<rparr>"
  let ?LU = "\<lparr>data = [2, 1 / 2, 1, 5 / 2::real], rows = 2, cols = 2, p = [0, 1], factorized = True\<rparr>"
  have s1: "solve ?A [3, 5] = Inr (?LU, [4 / 5, 7 / 5])" by code_simp
  have s2: "solve ?A [2, 1] = Inr (?LU, [1, 0])" by code_simp
  from reuse_equals_fresh [OF s1, of "[2, 1]"] s1 s2 show ?thesis by simp
qed

text \<open>
  C10. For a matrix with \<open>r\<close> rows and \<open>c\<close> columns \<open>transpose\<close> returns a matrix with
  \<open>c\<close> rows and \<open>r\<close> columns whose entry \<open>(i, j)\<close> is the entry \<open>(j, i)\<close> of the
  original, and transposing twice gives back the shape and the storage of the original.
\<close>

theorem transpose_twice:
  "wf_matrix m \<Longrightarrow>
   rows (transpose_matrix m) = cols m \<and> cols (transpose_matrix m) = rows m \<and>
   (\<forall>i<cols m. \<forall>j<rows m. index (transpose_matrix m) i j = index m j i) \<and>
   rows (transpose_matrix (transpose_matrix m)) = rows m \<and>
   cols (transpose_matrix (transpose_matrix m)) = cols m \<and>
   data (transpose_matrix (transpose_matrix m)) = data m"
proof -
  assume wf: "wf_matrix m"
  have "data (transpose_matrix (transpose_matrix m)) = data m"
  proof (rule data_eqI [OF wf])
    fix i j assume "i < rows m" "j < cols m"
    then show "index (transpose_matrix (transpose_matrix m)) i j = index m i j"
      by (simp add: transpose_matrix_index)
  qed simp_all
  then show ?thesis by (simp add: transpose_matrix_index)
qed

theorem transpose_twice_witness:
  "wf_matrix \<lparr>data = [1, 2, 3, 4, 5, 6::real], rows = 2, cols = 3, p = [], factorized = False\<rparr> \<and>
   transpose_matrix \<lparr>data = [1, 2, 3, 4, 5, 6::real], rows = 2, cols = 3, p = [], factorized = False\<rparr>
     = \<lparr>data = [1, 3, 5, 2, 4, 6], rows = 3, cols = 2, p = [], factorized = False\<rparr> \<and>
   data (transpose_matrix (transpose_matrix
     \<lparr>data = [1, 2, 3, 4, 5, 6::real], rows = 2, cols = 3, p = [], factorized = False\<rparr>))
     = [1, 2, 3, 4, 5, 6]"
proof -
  let ?A = "\<lparr>data = [1, 2, 3, 4, 5, 6::real], rows = 2, cols = 3, p = [], factorized = False\<rparr>"
  have wf: "wf_matrix ?A" by (simp add: wf_matrix_def)
  have t: "transpose_matrix ?A
     = \<lparr>data = [1, 3, 5, 2, 4, 6], rows = 3, cols = 2, p = [], factorized = False\<rparr>"
    by code_simp
  from transpose_twice [OF wf] have "data (transpose_matrix (transpose_matrix ?A)) = data ?A"
    by blast
  with wf t show ?thesis by simp
qed

text \<open>
  C2, as the code has it. \<open>solve\<close> makes no test for a zero pivot or a zero diagonal
  entry and has no failure to report for one. It fails in two cases only, and neither
  looks at an entry of the matrix: the assertion of \<open>factorize\<close> on a matrix that is
  not square, and a right-hand side with fewer entries than the matrix has rows. So
  replacing the entries of the matrix by any others never changes whether the call
  fails.
\<close>

theorem solve_fails_on_shape_only:
  "(isl (solve m b) \<longleftrightarrow> (\<not> factorized m \<and> rows m \<noteq> cols m) \<or> length b < rows m) \<and>
   isl (solve (m\<lparr>data := d\<rparr>) b) = isl (solve m b)"
proof -
  have *: "isl (solve m b) \<longleftrightarrow> (\<not> factorized m \<and> rows m \<noteq> cols m) \<or> length b < rows m"
    for m :: "'a matrix"
  proof (cases "factorized m")
    case True
    then show ?thesis by (simp add: solve_cached)
  next
    case False
    show ?thesis
    proof (cases "rows m = cols m")
      case True
      from solve_fresh [OF False factorize_square [OF True]] False True show ?thesis by simp
    next
      case False
      with \<open>\<not> factorized m\<close> show ?thesis by (simp add: solve_abort)
    qed
  qed
  from * [of m] * [of "m\<lparr>data := d\<rparr>"] show ?thesis by simp
qed

theorem solve_fails_on_shape_only_witness:
  "\<not> isl (solve \<lparr>data = [1, 2, 2, 4::real], rows = 2, cols = 2, p = [], factorized = False\<rparr> [1, 0]) \<and>
   isl (solve \<lparr>data = [1, 2, 2, 4, 3, 6::real], rows = 2, cols = 3, p = [], factorized = False\<rparr> [1, 0]) \<and>
   isl (solve \<lparr>data = [1, 2, 2, 4::real], rows = 2, cols = 2, p = [], factorized = False\<rparr> [1])"
  using
    solve_fails_on_shape_only [of
      "\<lparr>data = [1, 2, 2, 4::real], rows = 2, cols = 2, p = [], factorized = False\<rparr>" "[1, 0]"]
    solve_fails_on_shape_only [of
      "\<lparr>data = [1, 2, 2, 4, 3, 6::real], rows = 2, cols = 3, p = [], factorized = False\<rparr>" "[1, 0]"]
    solve_fails_on_shape_only [of
      "\<lparr>data = [1, 2, 2, 4::real], rows = 2, cols = 2, p = [], factorized = False\<rparr>" "[1]"]
  by simp

theorem singular_not_reported:
  "factorize \<lparr>data = [1, 2, 2, 4::real], rows = 2, cols = 2, p = [], factorized = False\<rparr>
     = Inr \<lparr>data = [1 / 2, 2, 0, 4], rows = 2, cols = 2, p = [1, 0], factorized = True\<rparr> \<and>
   index \<lparr>data = [1 / 2, 2, 0, 4::real], rows = 2, cols = 2, p = [1, 0], factorized = True\<rparr>
     ([1, 0] ! 1) 1 = 0 \<and>
   \<not> isl (solve \<lparr>data = [1, 2, 2, 4::real], rows = 2, cols = 2, p = [], factorized = False\<rparr> [3, 6])"
  by code_simp

text \<open>
  C9, as the code has it. \<open>solve\<close> makes no test on the length of the right-hand side.
  On a square matrix of dimension \<open>n\<close>, not yet factorized or already factorized by an
  earlier call, and a right-hand side with at least \<open>n\<close> entries it returns without a
  failure: the result has the length of the right-hand side, and its entries from
  position \<open>n\<close> on are those of the right-hand side, untouched.
\<close>

theorem solve_longer_rhs:
  "(if factorized m then perm_ok m else rows m = cols m) \<Longrightarrow> rows m \<le> length b \<Longrightarrow>
   \<exists>m' x. solve m b = Inr (m', x) \<and> length x = length b \<and>
          (\<forall>i. rows m \<le> i \<and> i < length b \<longrightarrow> x ! i = b ! i)"
proof -
  assume st: "if factorized m then perm_ok m else rows m = cols m"
    and len: "rows m \<le> length b"
  show ?thesis
  proof (cases "factorized m")
    case True
    from solve_cached [OF True] len
    have s: "solve m b = Inr (m, bwdsub m (fwdsub m b))" by simp
    from True st have "perm_ok m" by simp
    then have "bwdsub m (fwdsub m b) ! i = b ! i" if "rows m \<le> i" for i
      using that by (rule subst_beyond)
    with s show ?thesis by simp
  next
    case False
    with st have sq: "rows m = cols m" by simp
    define m' where "m' = (fold pivot_step [0..<rows m - 1] (init_perm m))\<lparr>factorized := True\<rparr>"
    from sq have f: "factorize m = Inr m'" by (simp add: m'_def factorize_square)
    from solve_fresh [OF False f] len
    have s: "solve m b = Inr (m', bwdsub m' (fwdsub m' b))" by simp
    have "bwdsub m' (fwdsub m' b) ! i = b ! i" if "rows m \<le> i" for i
      using factorize_result(1,5) [OF f] that by (intro subst_beyond) simp_all
    with s show ?thesis by simp
  qed
qed

theorem solve_longer_rhs_witness:
  "(\<exists>m' x. solve \<lparr>data = [2, 1, 1, 3::real], rows = 2, cols = 2, p = [], factorized = False\<rparr>
              [3, 5, 7] = Inr (m', x) \<and> length x = 3 \<and> x ! 2 = 7) \<and>
   (\<exists>m' x. solve \<lparr>data = [2, 1 / 2, 1, 5 / 2::real], rows = 2, cols = 2, p = [0, 1],
                    factorized = True\<rparr>
              [3, 5, 7] = Inr (m', x) \<and> length x = 3 \<and> x ! 2 = 7)"
proof -
  let ?A = "\<lparr>data = [2, 1, 1, 3::real], rows = 2, cols = 2, p = [], factorized = False\<rparr>"
  let ?LU = "\<lparr>data = [2, 1 / 2, 1, 5 / 2::real], rows = 2, cols = 2, p = [0, 1], factorized = True\<rparr>"
  have hA: "if factorized ?A then perm_ok ?A else rows ?A = cols ?A"
    "rows ?A \<le> length [3, 5, 7::real]"
    by simp_all
  have hLU: "if factorized ?LU then perm_ok ?LU else rows ?LU = cols ?LU"
    "rows ?LU \<le> length [3, 5, 7::real]"
    by (auto simp: perm_ok_def)
  from solve_longer_rhs [OF hA] obtain m' x where
    a: "solve ?A [3, 5, 7] = Inr (m', x)" "length x = 3"
    "\<forall>i. rows ?A \<le> i \<and> i < length [3, 5, 7::real] \<longrightarrow> x ! i = [3, 5, 7] ! i"
    by auto
  from a(3) have a3: "x ! 2 = 7" by simp
  from solve_longer_rhs [OF hLU] obtain m'' x' where
    b: "solve ?LU [3, 5, 7] = Inr (m'', x')" "length x' = 3"
    "\<forall>i. rows ?LU \<le> i \<and> i < length [3, 5, 7::real] \<longrightarrow> x' ! i = [3, 5, 7] ! i"
    by auto
  from b(3) have b3: "x' ! 2 = 7" by simp
  from a(1,2) a3 b(1,2) b3 show ?thesis by blast
qed

theorem length_mismatch_not_reported:
  "solve \<lparr>data = [2::real], rows = 1, cols = 1, p = [], factorized = False\<rparr> [4, 5]
     = Inr (\<lparr>data = [2], rows = 1, cols = 1, p = [0], factorized = True\<rparr>, [2, 5])"
  by code_simp


text \<open>
  C3. Let \<open>s\<close> be the state of \<open>factorize\<close> on a square matrix of dimension \<open>n\<close> when
  its loop reaches the pivot column \<open>ii\<close>, for any \<open>ii\<close> from 0 to \<open>n - 2\<close>, and \<open>k\<close>
  the position the scan of that column returns. Then \<open>factorize\<close> goes on from \<open>s\<close> by
  swapping \<open>p[ii]\<close> with \<open>p[k]\<close>, eliminating, and running the later columns, and \<open>k\<close>
  is the position among \<open>ii, \<dots>, n - 1\<close> whose row \<open>p[k]\<close> has the largest entry in
  column \<open>ii\<close> as a signed value (no absolute value is taken): no candidate has a
  greater entry, and every candidate scanned before \<open>k\<close> has a strictly smaller one, so
  among equal largest entries the first scanned wins. That row is at position \<open>ii\<close> of
  \<open>p\<close> after the step and in the permutation \<open>factorize\<close> returns, and its entry in
  column \<open>ii\<close> is the pivot the elimination divides by.
\<close>

theorem pivot_is_first_largest:
  fixes m :: "('a::{linorder,plus,uminus,times,inverse}) matrix"
  assumes "rows m = cols m" and "ii < rows m - 1"
    and "s = fold pivot_step [0..<ii] (init_perm m)"
    and "k = snd (find_pivot s ii)"
    and "m' = (fold pivot_step [Suc ii..<rows m - 1]
                 (eliminate ii (swap_pivot s ii k)))\<lparr>factorized := True\<rparr>"
  shows "factorize m = Inr m' \<and> p m' ! ii = p s ! k \<and>
    ii \<le> k \<and> k < rows m \<and>
    (\<forall>j. ii \<le> j \<and> j < rows m \<longrightarrow> index s (p s ! j) ii \<le> index s (p s ! k) ii) \<and>
    (\<forall>j. ii \<le> j \<and> j < k \<longrightarrow> index s (p s ! j) ii < index s (p s ! k) ii) \<and>
    p (pivot_step ii s) ! ii = p s ! k \<and>
    index (swap_pivot s ii k) (p (swap_pivot s ii k) ! ii) ii = index s (p s ! k) ii"
proof -
  from assms(2) have ii: "ii < rows m" by simp
  note st = loop_head_state [OF ii assms(3)]
  from st(1) ii have iis: "ii < rows s" by simp
  from st(3) st(1) have len: "length (p s) = rows s" by (simp add: perm_ok_def)
  note ch = pivot_choice [OF iis len assms(4)]
  have ps: "pivot_step ii s = eliminate ii (swap_pivot s ii k)"
    by (simp add: pivot_step_def assms(4))
  have "factorize m
      = Inr ((fold pivot_step [Suc ii..<rows m - 1] (pivot_step ii s))\<lparr>factorized := True\<rparr>)"
    unfolding assms(3) by (rule factorize_split [OF assms(1,2)])
  then have f: "factorize m = Inr m'" by (simp only: ps assms(5))
  have "p (fold pivot_step [Suc ii..<rows m - 1] (pivot_step ii s)) ! ii = p (pivot_step ii s) ! ii"
    by (rule fold_pivot_step_p_before) (use st(1) in auto)
  with ch have "p m' ! ii = p s ! k" by (simp add: assms(5) ps)
  with f ch st(1) show ?thesis by simp
qed

theorem pivot_is_first_largest_witness:
  "factorize \<lparr>data = [1, 3, 2, 2, 1, -5, 0, 1, 4::real], rows = 3, cols = 3, p = [], factorized = False\<rparr>
     = Inr \<lparr>data = [1 / 3, 3, 2 / 3, 5 / 3, 1, - (17 / 5), - (1 / 3), 1, 11 / 5],
            rows = 3, cols = 3, p = [1, 0, 2], factorized = True\<rparr> \<and>
   snd (find_pivot
     \<lparr>data = [1 / 3, 3, 2 / 3, 5 / 3, 1, - (17 / 3), - (1 / 3), 1, 10 / 3::real],
      rows = 3, cols = 3, p = [1, 0, 2], factorized = False\<rparr> 1) = 1 \<and>
   index \<lparr>data = [1 / 3, 3, 2 / 3, 5 / 3, 1, - (17 / 3), - (1 / 3), 1, 10 / 3::real],
          rows = 3, cols = 3, p = [1, 0, 2], factorized = False\<rparr> ([1, 0, 2] ! 2) 1
     < index \<lparr>data = [1 / 3, 3, 2 / 3, 5 / 3, 1, - (17 / 3), - (1 / 3), 1, 10 / 3::real],
              rows = 3, cols = 3, p = [1, 0, 2], factorized = False\<rparr> ([1, 0, 2] ! 1) 1"
proof -
  let ?A = "\<lparr>data = [1, 3, 2, 2, 1, -5, 0, 1, 4::real], rows = 3, cols = 3, p = [],
             factorized = False\<rparr>"
  let ?S = "\<lparr>data = [1 / 3, 3, 2 / 3, 5 / 3, 1, - (17 / 3), - (1 / 3), 1, 10 / 3::real],
             rows = 3, cols = 3, p = [1, 0, 2], factorized = False\<rparr>"
  let ?LU = "\<lparr>data = [1 / 3, 3, 2 / 3, 5 / 3, 1, - (17 / 5), - (1 / 3), 1, 11 / 5::real],
              rows = 3, cols = 3, p = [1, 0, 2], factorized = True\<rparr>"
  have h: "rows ?A = cols ?A" "1 < rows ?A - 1" by simp_all
  have s: "?S = fold pivot_step [0..<1] (init_perm ?A)" by code_simp
  have k: "1 = snd (find_pivot ?S 1)" by code_simp
  have m': "?LU = (fold pivot_step [Suc 1..<rows ?A - 1]
                     (eliminate 1 (swap_pivot ?S 1 1)))\<lparr>factorized := True\<rparr>"
    by code_simp
  from pivot_is_first_largest [OF h s k m'] have "factorize ?A = Inr ?LU"
    by (rule conjunct1)
  moreover have "index ?S ([1, 0, 2] ! 2) 1 < index ?S ([1, 0, 2] ! 1) 1" by code_simp
  ultimately show ?thesis using k by simp
qed

text \<open>
  C4. Let \<open>t\<close> be the state of \<open>factorize\<close> on a square matrix of dimension \<open>n\<close> when
  its loop reaches the pivot column \<open>ii\<close>, for any \<open>ii\<close> from 0 to \<open>n - 2\<close>, and \<open>s\<close>
  the state after the swap, with the pivot row at position \<open>ii\<close> of \<open>p\<close>. Then
  \<open>factorize\<close> goes on from \<open>s\<close> by the elimination of lines 107 to 114 and the later
  columns, and the elimination leaves for every row \<open>jj\<close> with \<open>ii < jj < n\<close> the
  multiplier \<open>A[p[jj]][ii] / A[p[ii]][ii]\<close> in the entry \<open>(p[jj], ii)\<close>, and in every
  column \<open>kk > ii\<close> the entry \<open>A[p[jj]][kk]\<close> less \<open>A[p[ii]][kk]\<close> times that
  multiplier, all in terms of the entries of \<open>s\<close>. The rows up to the pivot row, the
  columns before \<open>ii\<close> and the permutation are left as they were.
\<close>

theorem elimination_step:
  fixes m :: "('a::{field,ord}) matrix"
  assumes "wf_matrix m" and "rows m = cols m" and "ii < rows m - 1"
    and "t = fold pivot_step [0..<ii] (init_perm m)"
    and "s = swap_pivot t ii (snd (find_pivot t ii))"
    and "ii < jj" and "jj < rows m"
  shows "factorize m
      = Inr ((fold pivot_step [Suc ii..<rows m - 1] (eliminate ii s))\<lparr>factorized := True\<rparr>) \<and>
    pivot_step ii t = eliminate ii s \<and>
    index (eliminate ii s) (p s ! jj) ii = index s (p s ! jj) ii / index s (p s ! ii) ii \<and>
    (\<forall>kk. ii < kk \<and> kk < cols m \<longrightarrow>
       index (eliminate ii s) (p s ! jj) kk
         = index s (p s ! jj) kk
           - index s (p s ! ii) kk * (index s (p s ! jj) ii / index s (p s ! ii) ii)) \<and>
    (\<forall>c<ii. index (eliminate ii s) (p s ! jj) c = index s (p s ! jj) c) \<and>
    (\<forall>j c. j \<le> ii \<longrightarrow> index (eliminate ii s) (p s ! j) c = index s (p s ! j) c) \<and>
    p (eliminate ii s) = p s"
proof -
  from assms(3) have ii: "ii < rows m" by simp
  note st = loop_head_state [OF ii assms(4)]
  have ps: "pivot_step ii t = eliminate ii s"
    by (simp add: pivot_step_def assms(5))
  have "factorize m
      = Inr ((fold pivot_step [Suc ii..<rows m - 1] (pivot_step ii t))\<lparr>factorized := True\<rparr>)"
    unfolding assms(4) by (rule factorize_split [OF assms(2,3)])
  then have f: "factorize m
      = Inr ((fold pivot_step [Suc ii..<rows m - 1] (eliminate ii s))\<lparr>factorized := True\<rparr>)"
    by (simp only: ps)
  from ii st(1) have "ii < rows t" by simp
  then have "snd (find_pivot t ii) < rows t" by (simp add: find_pivot_range)
  with st(3) \<open>ii < rows t\<close> have ok: "perm_ok s"
    unfolding assms(5) by (intro perm_ok_swap)
  have s: "wf_matrix s" "rows s = cols s" "jj < rows s" "cols s = cols m"
    using assms(1,2,7) st by (simp_all add: assms(5))
  from eliminate_entries [OF s(1) ok s(2) assms(6) s(3)] f ps s(4) show ?thesis by simp
qed

theorem elimination_step_witness:
  "factorize \<lparr>data = [1, 3, 2, 2, 1, -5, 0, 1, 4::real], rows = 3, cols = 3, p = [], factorized = False\<rparr>
     = Inr \<lparr>data = [1 / 3, 3, 2 / 3, 5 / 3, 1, - (17 / 5), - (1 / 3), 1, 11 / 5],
            rows = 3, cols = 3, p = [1, 0, 2], factorized = True\<rparr> \<and>
   index (eliminate 1
     \<lparr>data = [1 / 3, 3, 2 / 3, 5 / 3, 1, - (17 / 3), - (1 / 3), 1, 10 / 3::real],
      rows = 3, cols = 3, p = [1, 0, 2], factorized = False\<rparr>) 2 1
     = - (17 / 3) / (5 / 3) \<and>
   index (eliminate 1
     \<lparr>data = [1 / 3, 3, 2 / 3, 5 / 3, 1, - (17 / 3), - (1 / 3), 1, 10 / 3::real],
      rows = 3, cols = 3, p = [1, 0, 2], factorized = False\<rparr>) 2 2
     = 10 / 3 - (- (1 / 3)) * (- (17 / 3) / (5 / 3))"
proof -
  let ?A = "\<lparr>data = [1, 3, 2, 2, 1, -5, 0, 1, 4::real], rows = 3, cols = 3, p = [],
             factorized = False\<rparr>"
  let ?S = "\<lparr>data = [1 / 3, 3, 2 / 3, 5 / 3, 1, - (17 / 3), - (1 / 3), 1, 10 / 3::real],
             rows = 3, cols = 3, p = [1, 0, 2], factorized = False\<rparr>"
  let ?LU = "\<lparr>data = [1 / 3, 3, 2 / 3, 5 / 3, 1, - (17 / 5), - (1 / 3), 1, 11 / 5::real],
              rows = 3, cols = 3, p = [1, 0, 2], factorized = True\<rparr>"
  have h: "wf_matrix ?A" "rows ?A = cols ?A" "1 < rows ?A - 1"
    by (simp_all add: wf_matrix_def)
  have t: "?S = fold pivot_step [0..<1] (init_perm ?A)" by code_simp
  have s: "?S = swap_pivot ?S 1 (snd (find_pivot ?S 1))" by code_simp
  have j: "(1::nat) < 2" "2 < rows ?A" by simp_all
  have lu: "(fold pivot_step [Suc 1..<rows ?A - 1] (eliminate 1 ?S))\<lparr>factorized := True\<rparr> = ?LU"
    by code_simp
  note e = elimination_step [OF h t s j]
  from e have "factorize ?A
      = Inr ((fold pivot_step [Suc 1..<rows ?A - 1] (eliminate 1 ?S))\<lparr>factorized := True\<rparr>)"
    by (rule conjunct1)
  then have fa: "factorize ?A = Inr ?LU" by (simp only: lu)
  from e have e1: "index (eliminate 1 ?S) (p ?S ! 2) 1
      = index ?S (p ?S ! 2) 1 / index ?S (p ?S ! 1) 1"
    and e2: "index (eliminate 1 ?S) (p ?S ! 2) 2
         = index ?S (p ?S ! 2) 2
           - index ?S (p ?S ! 1) 2 * (index ?S (p ?S ! 2) 1 / index ?S (p ?S ! 1) 1)"
    by simp_all
  have v: "index ?S (p ?S ! 2) 1 / index ?S (p ?S ! 1) 1 = - (17 / 3) / (5 / 3)"
    "index ?S (p ?S ! 2) 2
       - index ?S (p ?S ! 1) 2 * (index ?S (p ?S ! 2) 1 / index ?S (p ?S ! 1) 1)
     = 10 / 3 - (- (1 / 3)) * (- (17 / 3) / (5 / 3))"
    "p ?S ! 2 = 2"
    by (simp_all add: index_def sub2ind_def)
  from e1 v(1) have "index (eliminate 1 ?S) (p ?S ! 2) 1 = - (17 / 3) / (5 / 3)"
    by (rule trans)
  moreover from e2 v(2)
  have "index (eliminate 1 ?S) (p ?S ! 2) 2 = 10 / 3 - (- (1 / 3)) * (- (17 / 3) / (5 / 3))"
    by (rule trans)
  ultimately show ?thesis unfolding v(3) using fa by blast
qed

text \<open>
  C5. On a factorized matrix of dimension \<open>n\<close> with its permutation, and a right-hand
  side \<open>b\<close> with room for \<open>n\<close> entries, \<open>solve\<close> returns the solver unchanged and the
  vector \<open>x\<close> that the two substitutions leave in the storage of \<open>b\<close>. After the
  forward substitution the storage holds \<open>y\<close> with, for every \<open>ii < n\<close>,
  \<open>y[p[ii]] = b[p[ii]] - \<Sum>\<^bsub>kk < ii\<^esub> A[p[ii]][kk] * y[p[kk]]\<close>; after the backward
  substitution it holds \<open>x\<close> with
  \<open>x[p[ii]] = (y[p[ii]] - \<Sum>\<^bsub>ii < kk < n\<^esub> A[p[ii]][kk] * x[p[kk]]) / A[p[ii]][ii]\<close>.
  The sums are over the entries already rewritten, since the substitutions work in place.
\<close>

theorem substitution_recurrences:
  fixes m :: "('a::{field,ord}) matrix"
  assumes "factorized m" and "perm_ok m" and "rows m = cols m" and "rows m \<le> length b"
    and "y = fwdsub m b" and "x = bwdsub m y"
  shows "solve m b = Inr (m, x) \<and> length x = length b \<and>
    (\<forall>ii<rows m. y ! (p m ! ii)
       = b ! (p m ! ii) - (\<Sum>kk = 0..<ii. index m (p m ! ii) kk * y ! (p m ! kk))) \<and>
    (\<forall>ii<rows m. x ! (p m ! ii)
       = (y ! (p m ! ii) - (\<Sum>kk = Suc ii..<rows m. index m (p m ! ii) kk * x ! (p m ! kk)))
         / index m (p m ! ii) ii)"
proof -
  from assms(1,4) have "solve m b = Inr (m, x)"
    by (simp add: solve_cached assms(5,6))
  moreover have "length x = length b" by (simp add: assms(5,6))
  moreover have "\<forall>ii<rows m. y ! (p m ! ii)
       = b ! (p m ! ii) - (\<Sum>kk = 0..<ii. index m (p m ! ii) kk * y ! (p m ! kk))"
    using forward_invariant [OF assms(2,4) order_refl] by (simp add: assms(5) fwdsub_def)
  moreover have "\<forall>ii<rows m. x ! (p m ! ii)
       = (y ! (p m ! ii) - (\<Sum>kk = Suc ii..<rows m. index m (p m ! ii) kk * x ! (p m ! kk)))
         / index m (p m ! ii) ii"
  proof -
    have "rows m \<le> length y" using assms(4) by (simp add: assms(5))
    from backward_invariant [OF assms(2,3) this order_refl]
    show ?thesis by (simp add: assms(6) bwdsub_def)
  qed
  ultimately show ?thesis by blast
qed

theorem substitution_recurrences_witness:
  "fwdsub \<lparr>data = [2, 1 / 2, 1, 5 / 2::real], rows = 2, cols = 2, p = [0, 1], factorized = True\<rparr> [3, 5]
     = [3, 7 / 2] \<and>
   bwdsub \<lparr>data = [2, 1 / 2, 1, 5 / 2::real], rows = 2, cols = 2, p = [0, 1], factorized = True\<rparr> [3, 7 / 2]
     = [4 / 5, 7 / 5] \<and>
   solve \<lparr>data = [2, 1 / 2, 1, 5 / 2::real], rows = 2, cols = 2, p = [0, 1], factorized = True\<rparr> [3, 5]
     = Inr (\<lparr>data = [2, 1 / 2, 1, 5 / 2], rows = 2, cols = 2, p = [0, 1], factorized = True\<rparr>,
            [4 / 5, 7 / 5])"
proof -
  let ?M = "\<lparr>data = [2, 1 / 2, 1, 5 / 2::real], rows = 2, cols = 2, p = [0, 1], factorized = True\<rparr>"
  have h: "factorized ?M" "perm_ok ?M" "rows ?M = cols ?M" "rows ?M \<le> length [3, 5::real]"
    by (auto simp: perm_ok_def)
  have y: "[3, 7 / 2] = fwdsub ?M [3, 5]" by code_simp
  have x: "[4 / 5, 7 / 5] = bwdsub ?M [3, 7 / 2]" by code_simp
  from substitution_recurrences [OF h y x] have "solve ?M [3, 5] = Inr (?M, [4 / 5, 7 / 5])"
    by blast
  with y x show ?thesis by simp
qed

text \<open>
  C1, at an input where the code does not solve the system. The matrix
  \<open>A = [[0, 1], [-1, 0]]\<close> has determinant 1. In column 0 the scan compares the signed
  entries 0 and -1 and keeps row 0, so the pivot that line 110 divides by is 0, although
  the entry -1 of row 1 would do.
\<close>

theorem zero_pivot_on_invertible:
  "index \<lparr>data = [0, -1, 1, 0::real], rows = 2, cols = 2, p = [], factorized = False\<rparr> 0 0
     * index \<lparr>data = [0, -1, 1, 0::real], rows = 2, cols = 2, p = [], factorized = False\<rparr> 1 1
   - index \<lparr>data = [0, -1, 1, 0::real], rows = 2, cols = 2, p = [], factorized = False\<rparr> 0 1
     * index \<lparr>data = [0, -1, 1, 0::real], rows = 2, cols = 2, p = [], factorized = False\<rparr> 1 0
   = 1 \<and>
   find_pivot (init_perm \<lparr>data = [0, -1, 1, 0::real], rows = 2, cols = 2, p = [], factorized = False\<rparr>) 0
     = (0, 0) \<and>
   swap_pivot (init_perm \<lparr>data = [0, -1, 1, 0::real], rows = 2, cols = 2, p = [], factorized = False\<rparr>) 0 0
     = \<lparr>data = [0, -1, 1, 0], rows = 2, cols = 2, p = [0, 1], factorized = False\<rparr> \<and>
   index \<lparr>data = [0, -1, 1, 0::real], rows = 2, cols = 2, p = [0, 1], factorized = False\<rparr>
     ([0, 1] ! 0) 0 = 0"
  by code_simp


end
